theory Spec2Isabelle
  imports Main
begin

section \<open>The entity synchronization layer (\<open>db/index.ts\<close>, class \<open>DB\<close>)\<close>

text \<open>
  The embedding follows \<open>DB.saveMany\<close>, \<open>DB.saveOne\<close>, \<open>DB.deleteAllEntities\<close> and
  \<open>DB.close\<close>. A JavaScript object is rendered as the list of its (key, value) pairs in
  the order of \<open>Object.keys\<close>; property keys are strings and unique. Every field value
  is represented by its canonical string, so that the key coercion \<open>String(v)\<close> of
  \<open>_.indexBy\<close> and of the assignment \<open>.id = id\<close> is the identity. A method returns the
  new store, the effects it performed in order (log lines, successful store writes,
  dispatched commit actions) and the exception it threw, if any.
\<close>

subsection \<open>Data\<close>

type_synonym row = "string \<rightharpoonup> string"

type_synonym table = "string \<rightharpoonup> row"

type_synonym store = "string \<Rightarrow> table"

type_synonym entityMap = "(string \<times> row) list"

type_synonym tableMap = "(string \<times> entityMap) list"

type_synonym deleteSpec = "(string \<times> string list) list"

datatype error = IOFailure | CannotCloseNotConnected

text \<open>
  The effects of the methods, in the order they happen: \<open>LogSkip t n\<close> is the line
  \<open>Dunno how to persist t, skipping n records\<close>; \<open>Persisted t rows\<close> is an awaited
  \<open>repo.persist(rows)\<close> on the repository of \<open>t\<close> that was fulfilled; \<open>Commit t ids\<close> is
  \<open>store.dispatch(actions.dbCommit({tableName: t, updated: ids}))\<close>, where an id is
  \<open>None\<close> for \<open>undefined\<close>; \<open>LogSaved t s n u\<close> is the line
  \<open>saved s/n t, skipped u up-to-date\<close>; \<open>LogSkipDelete t n\<close> is the line
  \<open>Dunno how to persist t, skipping delete of n items\<close>; \<open>Removed t ids\<close> is an awaited
  \<open>repo.remove\<close> of the objects \<open>{id}\<close> that was fulfilled.
\<close>

datatype effect =
    LogSkip string nat
  | Persisted string "row list"
  | Commit string "string option list"
  | LogSaved string nat nat nat
  | LogSkipDelete string nat
  | Removed string "string list"

text \<open>
  Modelled from the spec: the model registry \<open>model-map\<close> is not among the sources. A
  registered model is represented by the names of its compared columns and by the
  schema defaults of its columns.
\<close>

record model =
  columns :: "string list"
  defaults :: row

text \<open>
  The environment of a run: the registry \<open>modelMap\<close>, a partial map from table names,
  and the tables on which a store write fails with an I/O error (the store is
  external; a write either succeeds or fails as a whole).
\<close>

record env =
  modelMap :: "string \<rightharpoonup> model"
  unwritable :: "string set"

text \<open>
  Modelled from the spec: \<open>get-columns\<close> is not among the sources; it gives the
  columns of a model that take part in the comparison.
\<close>

definition getColumns :: "model \<Rightarrow> string list" where
  "getColumns Model = columns Model"

text \<open>
  Modelled from the spec: \<open>compare-records\<close> is not among the sources. The comparator
  looks only at the fields present in the incoming record, restricted to the table's
  columns, and answers true iff each of them equals the stored field.
\<close>

definition compareRecords :: "row \<Rightarrow> row \<Rightarrow> string list \<Rightarrow> bool" where
  "compareRecords existing incoming cols =
     list_all (\<lambda>c. case incoming c of None \<Rightarrow> True | Some v \<Rightarrow> existing c = Some v) cols"

subsection \<open>The repository operations used by the source\<close>

text \<open>
  The store is the typeorm repository of a model: it is external to the sources, and
  its operations are modelled from the contract the spec gives for the Entity Store.
  A table maps the id of a row (its primary key) to the row.
\<close>

text \<open>
  Modelled from the spec: \<open>createQueryBuilder(...).where("e.id in (:entityIds)").getMany()\<close>
  is the spec's \<open>fetchByIds\<close>; it returns the stored rows among the given ids, and
  nothing for an id that is not stored.
\<close>

definition getMany :: "table \<Rightarrow> string list \<Rightarrow> row list" where
  "getMany tbl entityIds = List.map_filter tbl entityIds"

text \<open>
  Modelled from the spec: \<open>repo.create(entity)\<close> builds a new entity of the model from
  a plain object; the columns the object leaves unset take the schema's default.
\<close>

definition repo_create :: "model \<Rightarrow> row \<Rightarrow> row" where
  "repo_create Model entity = defaults Model ++ entity"

text \<open>
  Modelled from the spec: \<open>repo.merge(...objects)\<close> is external. The spec's merge lays
  the fields of the incoming record over a copy of the stored one; the operation takes
  any number of objects and lays their fields, in order, over a new entity of the
  model. Nothing that is not an argument reaches the result.
\<close>

definition repo_merge :: "model \<Rightarrow> row list \<Rightarrow> row" where
  "repo_merge Model objects = fold (\<lambda>obj acc. acc ++ obj) objects (defaults Model)"

text \<open>
  Modelled from the spec: one row of an upsert. The store is external; a row is
  inserted under its id, or replaces the row stored under that id. A row without an
  id names no stored row: it is accepted, and the rows stored under ids stay as they
  are (a table of the model holds the rows that have an id; a store that generates
  keys files such a row under a new key of its own).
\<close>

definition upsert :: "row \<Rightarrow> table \<Rightarrow> table" where
  "upsert r tbl = (case r ''id'' of Some k \<Rightarrow> tbl(k \<mapsto> r) | None \<Rightarrow> tbl)"

text \<open>
  Modelled from the spec: \<open>repo.persist(rows)\<close> is the spec's \<open>upsertMany\<close>; it inserts
  new rows and replaces existing rows by id, all or nothing. A write on an unwritable
  table fails with \<open>IOFailure\<close> and leaves the table as it was.
\<close>

definition persist :: "env \<Rightarrow> store \<Rightarrow> string \<Rightarrow> row list \<Rightarrow> error + store" where
  "persist e db tableName rows =
     (if tableName \<in> unwritable e then Inl IOFailure
      else Inr (db(tableName := fold upsert rows (db tableName))))"

text \<open>
  Modelled from the spec: \<open>repo.remove(rows)\<close> is the spec's \<open>deleteMany\<close>; it removes
  the rows with the ids of the given objects, and an id that is not stored is no
  error. A write on an unwritable table fails with \<open>IOFailure\<close>.
\<close>

definition remove :: "env \<Rightarrow> store \<Rightarrow> string \<Rightarrow> row list \<Rightarrow> error + store" where
  "remove e db tableName rows =
     (if tableName \<in> unwritable e then Inl IOFailure
      else Inr (db(tableName :=
             (\<lambda>k. if Some k \<in> set (map (\<lambda>r. r ''id'') rows) then None else db tableName k))))"

subsection \<open>The underscore helpers\<close>

definition keyOf :: "row \<Rightarrow> string" where
  "keyOf r = (case r ''id'' of Some k \<Rightarrow> k | None \<Rightarrow> ''undefined'')"

definition indexBy :: "row list \<Rightarrow> table" where
  "indexBy rs = fold (\<lambda>r m. m(keyOf r \<mapsto> r)) rs Map.empty"

definition pluck :: "row list \<Rightarrow> string option list" where
  "pluck rs = map (\<lambda>r. r ''id'') rs"

subsection \<open>\<open>DB.saveMany\<close>\<close>

text \<open>
  The inner loop over \<open>entityIds\<close>: it returns the queue \<open>rows\<close> and \<open>numUpToDate\<close>.
  An id with a stored counterpart that compares equal is counted and skipped; with a
  counterpart that differs, \<open>repo.merge(entity)\<close> is queued (the stored entity is not
  passed to \<open>merge\<close>); without a counterpart, \<open>repo.create(entity)\<close> with its \<open>id\<close> set
  to the key is queued.
\<close>

fun collectRows :: "model \<Rightarrow> table \<Rightarrow> entityMap \<Rightarrow> row list \<times> nat" where
  "collectRows Model existingEntities [] = ([], 0)"
| "collectRows Model existingEntities ((eid, entity) # rest) =
     (case collectRows Model existingEntities rest of (rows, numUpToDate) \<Rightarrow>
        (case existingEntities eid of
           Some existingEntity \<Rightarrow>
             if compareRecords existingEntity entity (getColumns Model)
             then (rows, Suc numUpToDate)
             else (repo_merge Model [entity] # rows, numUpToDate)
         | None \<Rightarrow> ((repo_create Model entity)(''id'' \<mapsto> eid) # rows, numUpToDate)))"

text \<open>The queue of one table, from the rows stored for the incoming ids.\<close>

definition queue :: "model \<Rightarrow> table \<Rightarrow> entityMap \<Rightarrow> row list" where
  "queue Model tbl entities =
     fst (collectRows Model (indexBy (getMany tbl (map fst entities))) entities)"

text \<open>
  The body of the loop over the tables. A rejected \<open>repo.persist\<close> throws out of the
  method: nothing after it in the body runs.
\<close>

definition saveTable ::
  "env \<Rightarrow> store \<Rightarrow> string \<Rightarrow> entityMap \<Rightarrow> store \<times> effect list \<times> error option" where
  "saveTable e db tableName entities =
     (let entityIds = map fst entities in
      case modelMap e tableName of
        None \<Rightarrow> (db, [LogSkip tableName (length entityIds)], None)
      | Some Model \<Rightarrow>
          (let savedRows = getMany (db tableName) entityIds;
               existingEntities = indexBy savedRows in
           case collectRows Model existingEntities entities of (rows, numUpToDate) \<Rightarrow>
             let saved = LogSaved tableName (length entityIds - numUpToDate)
                           (length entityIds) numUpToDate in
             if length rows > 0 then
               (case persist e db tableName rows of
                  Inl err \<Rightarrow> (db, [], Some err)
                | Inr db' \<Rightarrow>
                    (db', [Persisted tableName rows, Commit tableName (pluck rows), saved],
                     None))
             else (db, [saved], None)))"

fun saveMany :: "env \<Rightarrow> store \<Rightarrow> tableMap \<Rightarrow> store \<times> effect list \<times> error option" where
  "saveMany e db [] = (db, [], None)"
| "saveMany e db ((tableName, entities) # rest) =
     (case saveTable e db tableName entities of
        (db', fx, Some err) \<Rightarrow> (db', fx, Some err)
      | (db', fx, None) \<Rightarrow>
          (case saveMany e db' rest of (db'', fx', r) \<Rightarrow> (db'', fx @ fx', r)))"

subsection \<open>\<open>DB.saveOne\<close>\<close>

definition saveOne ::
  "env \<Rightarrow> store \<Rightarrow> string \<Rightarrow> string \<Rightarrow> row \<Rightarrow> store \<times> effect list \<times> error option" where
  "saveOne e db tableName eid record = saveMany e db [(tableName, [(eid, record)])]"

subsection \<open>\<open>DB.deleteAllEntities\<close>\<close>

definition deleteTable ::
  "env \<Rightarrow> store \<Rightarrow> string \<Rightarrow> string list \<Rightarrow> store \<times> effect list \<times> error option" where
  "deleteTable e db tableName entities =
     (case modelMap e tableName of
        None \<Rightarrow> (db, [LogSkipDelete tableName (length entities)], None)
      | Some Model \<Rightarrow>
          (let toRemove = map (\<lambda>eid. [''id'' \<mapsto> eid]) entities in
           case remove e db tableName toRemove of
             Inl err \<Rightarrow> (db, [], Some err)
           | Inr db' \<Rightarrow> (db', [Removed tableName entities], None)))"

fun deleteAllEntities ::
  "env \<Rightarrow> store \<Rightarrow> deleteSpec \<Rightarrow> store \<times> effect list \<times> error option" where
  "deleteAllEntities e db [] = (db, [], None)"
| "deleteAllEntities e db ((tableName, entities) # rest) =
     (case deleteTable e db tableName entities of
        (db', fx, Some err) \<Rightarrow> (db', fx, Some err)
      | (db', fx, None) \<Rightarrow>
          (case deleteAllEntities e db' rest of (db'', fx', r) \<Rightarrow> (db'', fx @ fx', r)))"

subsection \<open>\<open>DB.close\<close>\<close>

text \<open>
  The handle holds the connection and \<open>dbPath\<close>. \<open>close\<close> logs, awaits
  \<open>this.conn.close()\<close> and then clears \<open>dbPath\<close>; it tests nothing before the call.
  What the connection does when it is asked to close is the library's: it is a
  parameter of \<open>DB_close\<close>. \<open>typeorm_close\<close> is a connection that closes when it
  is connected and rejects the call when it is not, as typeorm's \<open>Connection.close\<close>
  does.
\<close>

datatype connection = Connected | NotConnected

record handle =
  conn :: connection
  dbPath :: "string option"

datatype closeLog = Closing "string option" | Closed

definition DB_close ::
  "(connection \<Rightarrow> error + connection) \<Rightarrow> handle \<Rightarrow> handle \<times> closeLog list \<times> error option" where
  "DB_close conn_close h =
     (case conn_close (conn h) of
        Inl err \<Rightarrow> (h, [Closing (dbPath h)], Some err)
      | Inr c \<Rightarrow> (h\<lparr>conn := c, dbPath := None\<rparr>, [Closing (dbPath h), Closed], None))"

definition typeorm_close :: "connection \<Rightarrow> error + connection" where
  "typeorm_close c = (if c = Connected then Inr NotConnected else Inl CannotCloseNotConnected)"

section \<open>Stores, batches and effects: the notions of the properties\<close>

subsection \<open>Well-formed stores and batches\<close>

text \<open>
  A store keeps each row under its own id. The keys of a JavaScript object are
  distinct: those of the batch and those of each of its tables. \<open>keyed\<close> holds of a
  batch, on a store, when each record of a registered table either carries, as its
  \<open>id\<close> field, the key it is filed under, or has no \<open>id\<close> field and is new or up to
  date on that store.
\<close>

definition wf_table :: "table \<Rightarrow> bool" where
  "wf_table tbl = (\<forall>k r. tbl k = Some r \<longrightarrow> r ''id'' = Some k)"

definition wf_store :: "store \<Rightarrow> bool" where
  "wf_store db = (\<forall>t. wf_table (db t))"

definition distinctKeys :: "tableMap \<Rightarrow> bool" where
  "distinctKeys batch =
     (distinct (map fst batch) \<and> list_all (\<lambda>(t, ents). distinct (map fst ents)) batch)"

definition keyedIn :: "model \<Rightarrow> table \<Rightarrow> entityMap \<Rightarrow> bool" where
  "keyedIn M tbl ents =
     list_all (\<lambda>(i, en). en ''id'' = Some i \<or>
                 (en ''id'' = None \<and>
                  (case tbl i of None \<Rightarrow> True
                   | Some x \<Rightarrow> compareRecords x en (getColumns M)))) ents"

definition keyed :: "env \<Rightarrow> store \<Rightarrow> tableMap \<Rightarrow> bool" where
  "keyed e db batch =
     list_all (\<lambda>(t, ents). case modelMap e t of None \<Rightarrow> True
                            | Some M \<Rightarrow> keyedIn M (db t) ents) batch"

definition writableSpec :: "env \<Rightarrow> deleteSpec \<Rightarrow> bool" where
  "writableSpec e spec = list_all (\<lambda>(t, ids). t \<notin> unwritable e) spec"

subsection \<open>Reading the effects\<close>

text \<open>
  \<open>upToDateLog\<close> is what a table logs when nothing of it is written: the skip of an
  unregistered table, or \<open>saved 0/n, skipped n up-to-date\<close>. \<open>isWrite\<close> holds of a
  store write and of a commit action; \<open>commitsFor\<close> selects the commit actions of one
  table. \<open>deleted\<close> holds of the ids a deletion spec removes, and \<open>deleteLog\<close> is the
  effect of one of its tables.
\<close>

definition upToDateLog :: "env \<Rightarrow> string \<times> entityMap \<Rightarrow> effect" where
  "upToDateLog e p =
     (case modelMap e (fst p) of
        None \<Rightarrow> LogSkip (fst p) (length (snd p))
      | Some M \<Rightarrow> LogSaved (fst p) 0 (length (snd p)) (length (snd p)))"

fun isWrite :: "effect \<Rightarrow> bool" where
  "isWrite (Persisted t rows) = True"
| "isWrite (Commit t ids) = True"
| "isWrite x = False"

fun isCommitFor :: "string \<Rightarrow> effect \<Rightarrow> bool" where
  "isCommitFor t (Commit t' ids) = (t' = t)"
| "isCommitFor t x = False"

definition commitsFor :: "string \<Rightarrow> effect list \<Rightarrow> effect list" where
  "commitsFor t fx = filter (isCommitFor t) fx"

definition deleted :: "env \<Rightarrow> deleteSpec \<Rightarrow> string \<Rightarrow> string \<Rightarrow> bool" where
  "deleted e spec t k =
     (modelMap e t \<noteq> None \<and> list_ex (\<lambda>(t', ids). t' = t \<and> k \<in> set ids) spec)"

definition deleteLog :: "env \<Rightarrow> string \<times> string list \<Rightarrow> effect" where
  "deleteLog e p =
     (case modelMap e (fst p) of
        None \<Rightarrow> LogSkipDelete (fst p) (length (snd p))
      | Some M \<Rightarrow> Removed (fst p) (snd p))"

subsection \<open>A registry, stores and batches to run the methods on\<close>

definition emptyStore :: store where
  "emptyStore = (\<lambda>t. Map.empty)"

definition gamesModel :: model where
  "gamesModel = \<lparr>columns = [''id'', ''a'', ''b''], defaults = Map.empty\<rparr>"

definition usersModel :: model where
  "usersModel = \<lparr>columns = [''id'', ''name'', ''lang''], defaults = [''lang'' \<mapsto> ''en'']\<rparr>"

definition env0 :: env where
  "env0 = \<lparr>modelMap = [''games'' \<mapsto> gamesModel, ''users'' \<mapsto> usersModel], unwritable = {}\<rparr>"

definition envGamesDown :: env where
  "envGamesDown = env0\<lparr>unwritable := {''games''}\<rparr>"

definition okGames :: entityMap where
  "okGames = [(''1'', [''id'' \<mapsto> ''1'', ''a'' \<mapsto> ''x'']), (''2'', [''a'' \<mapsto> ''y''])]"

definition okBatch :: tableMap where
  "okBatch = [(''games'', okGames), (''themes'', [(''9'', [''name'' \<mapsto> ''dark''])])]"

definition mergeStore :: store where
  "mergeStore =
     emptyStore(''games'' := [''1'' \<mapsto> [''id'' \<mapsto> ''1'', ''a'' \<mapsto> ''x'', ''b'' \<mapsto> ''y'']])"

definition updGames :: entityMap where
  "updGames = [(''1'', [''id'' \<mapsto> ''1'', ''a'' \<mapsto> ''z'']), (''2'', [''a'' \<mapsto> ''y''])]"

definition updBatch :: tableMap where
  "updBatch = [(''games'', updGames), (''themes'', [(''9'', [''name'' \<mapsto> ''dark''])])]"

definition mergeBatchNoId :: tableMap where
  "mergeBatchNoId = [(''games'', [(''1'', [''a'' \<mapsto> ''z''])])]"



definition oneGame :: entityMap where
  "oneGame = [(''1'', [''id'' \<mapsto> ''1'', ''a'' \<mapsto> ''x''])]"

definition usersOnly :: tableMap where
  "usersOnly = [(''users'', [(''7'', [''id'' \<mapsto> ''7'', ''name'' \<mapsto> ''n''])])]"

definition twoTables :: tableMap where
  "twoTables = (''games'', oneGame) # usersOnly"

definition usersStore :: store where
  "usersStore = emptyStore(''users'' :=
     [''5'' \<mapsto> [''id'' \<mapsto> ''5'', ''name'' \<mapsto> ''u''], ''6'' \<mapsto> [''id'' \<mapsto> ''6'', ''name'' \<mapsto> ''v'']])"

definition newUser :: entityMap where
  "newUser = [(''7'', [''name'' \<mapsto> ''n''])]"

definition dropFive :: deleteSpec where
  "dropFive = [(''users'', [''5''])]"

definition openHandle :: handle where
  "openHandle = \<lparr>conn = Connected, dbPath = Some ''itch.db''\<rparr>"

section \<open>Auxiliary facts\<close>

subsection \<open>Reading and writing a table\<close>

lemma fold_index_getMany:
  "wf_table tbl \<Longrightarrow>
   fold (\<lambda>r m. m(keyOf r \<mapsto> r)) (List.map_filter tbl ids) m0 = m0 ++ (tbl |` set ids)"
proof (induction ids arbitrary: m0)
  case Nil
  then show ?case by simp
next
  case (Cons i ids)
  let ?f = "\<lambda>r m. m(keyOf r \<mapsto> (r::row))"
  show ?case
  proof (cases "tbl i")
    case None
    then have "tbl |` set (i # ids) = tbl |` set ids"
      by (auto simp: restrict_map_def fun_eq_iff)
    moreover from None have "List.map_filter tbl (i # ids) = List.map_filter tbl ids"
      by simp
    ultimately show ?thesis using Cons.IH[OF Cons.prems] by simp
  next
    case (Some r)
    from Cons.prems Some have "r ''id'' = Some i" unfolding wf_table_def by blast
    then have k: "keyOf r = i" by (simp add: keyOf_def)
    from Some have "List.map_filter tbl (i # ids) = r # List.map_filter tbl ids"
      by (simp add: List.map_filter_def)
    then have "fold ?f (List.map_filter tbl (i # ids)) m0
                 = fold ?f (List.map_filter tbl ids) (m0(i \<mapsto> r))"
      using k by simp
    also have "\<dots> = m0(i \<mapsto> r) ++ (tbl |` set ids)"
      by (rule Cons.IH[OF Cons.prems])
    also have "\<dots> = m0 ++ (tbl |` set (i # ids))"
      using Some by (auto simp: restrict_map_def fun_eq_iff map_add_def split: option.splits)
    finally show ?thesis .
  qed
qed

lemma indexBy_getMany:
  "wf_table tbl \<Longrightarrow> indexBy (getMany tbl ids) = tbl |` set ids"
  by (simp add: indexBy_def getMany_def fold_index_getMany)

lemma fold_upsert_other:
  "\<forall>r \<in> set rows. r ''id'' \<noteq> Some k \<Longrightarrow> fold upsert rows tbl k = tbl k"
  by (induction rows arbitrary: tbl) (auto simp: upsert_def split: option.splits)

lemma fold_upsert_cases:
  "fold upsert rows tbl k = Some x \<Longrightarrow>
   (x \<in> set rows \<and> x ''id'' = Some k) \<or> tbl k = Some x"
proof (induction rows arbitrary: tbl)
  case Nil
  then show ?case by simp
next
  case (Cons a rows)
  from Cons.prems have "fold upsert rows (upsert a tbl) k = Some x" by simp
  from Cons.IH[OF this] show ?case
    by (auto simp: upsert_def split: option.splits if_splits)
qed

lemma fold_upsert_hit:
  "r \<in> set rows \<Longrightarrow> r ''id'' = Some k \<Longrightarrow>
   \<exists>x \<in> set rows. x ''id'' = Some k \<and> fold upsert rows tbl k = Some x"
proof (induction rows arbitrary: tbl r)
  case Nil
  then show ?case by simp
next
  case (Cons a rows)
  show ?case
  proof (cases "\<exists>r' \<in> set rows. r' ''id'' = Some k")
    case True
    then obtain r' where "r' \<in> set rows" "r' ''id'' = Some k" by blast
    from Cons.IH[OF this, of "upsert a tbl"] show ?thesis by auto
  next
    case False
    with Cons.prems have a: "a = r" by auto
    from False have "fold upsert rows (upsert a tbl) k = upsert a tbl k"
      by (intro fold_upsert_other) auto
    moreover have "upsert a tbl k = Some r"
      using a Cons.prems by (simp add: upsert_def)
    ultimately show ?thesis using a Cons.prems by simp
  qed
qed

lemma fold_upsert_keeps:
  "tbl k \<noteq> None \<Longrightarrow> fold upsert rows tbl k \<noteq> None"
  by (induction rows arbitrary: tbl) (auto simp: upsert_def split: option.splits)

lemma wf_fold_upsert:
  "wf_table tbl \<Longrightarrow> wf_table (fold upsert rows tbl)"
  unfolding wf_table_def using fold_upsert_cases by blast

lemma persist_other:
  "persist e db t rows = Inr db' \<Longrightarrow> t' \<noteq> t \<Longrightarrow> db' t' = db t'"
  by (auto simp: persist_def split: if_splits)

lemma persist_same:
  "persist e db t rows = Inr db' \<Longrightarrow> db' t = fold upsert rows (db t)"
  by (auto simp: persist_def split: if_splits)

subsection \<open>The comparator and the queue\<close>

lemma compareRecords_iff:
  "compareRecords x en cols \<longleftrightarrow> (\<forall>c \<in> set cols. \<forall>v. en c = Some v \<longrightarrow> x c = Some v)"
  by (auto simp: compareRecords_def list_all_iff split: option.splits)

lemma repo_merge_single: "repo_merge M [en] = defaults M ++ en"
  by (simp add: repo_merge_def)

lemma compare_merge_self: "compareRecords (repo_merge M [en]) en cols"
  by (simp add: compareRecords_iff repo_merge_single map_add_def)

lemma compare_create_self:
  "en ''id'' = None \<or> en ''id'' = Some i \<Longrightarrow>
   compareRecords ((repo_create M en)(''id'' \<mapsto> i)) en cols"
  by (auto simp: compareRecords_iff repo_create_def map_add_def)

lemma collectRows_mem:
  "r \<in> set (fst (collectRows M ex ents)) \<longleftrightarrow>
   (\<exists>i en. (i, en) \<in> set ents \<and>
      ((\<exists>x. ex i = Some x \<and> \<not> compareRecords x en (getColumns M) \<and> r = repo_merge M [en])
       \<or> (ex i = None \<and> r = (repo_create M en)(''id'' \<mapsto> i))))"
proof (induction ents)
  case Nil
  show ?case by simp
next
  case (Cons p ents)
  obtain i en where p: "p = (i, en)" by (cases p)
  obtain rows n where c: "collectRows M ex ents = (rows, n)" by (cases "collectRows M ex ents")
  with Cons have IH: "r \<in> set rows \<longleftrightarrow>
   (\<exists>i en. (i, en) \<in> set ents \<and>
      ((\<exists>x. ex i = Some x \<and> \<not> compareRecords x en (getColumns M) \<and> r = repo_merge M [en])
       \<or> (ex i = None \<and> r = (repo_create M en)(''id'' \<mapsto> i))))"
    by (simp del: fun_upd_apply)
  show ?case unfolding p
    by (cases "ex i") (auto simp: c IH simp del: fun_upd_apply)
qed

text \<open>
  \<open>numUpToDate\<close> never exceeds the number of ids, so the difference logged by the
  source is the difference of natural numbers.
\<close>

lemma collectRows_counts:
  "length (fst (collectRows M ex ents)) + snd (collectRows M ex ents) = length ents"
  by (induction ents) (auto split: prod.splits option.splits)

lemma collectRows_all_up_to_date:
  "\<forall>(i, en) \<in> set ents. \<exists>x. ex i = Some x \<and> compareRecords x en (getColumns M) \<Longrightarrow>
   collectRows M ex ents = ([], length ents)"
  by (induction ents) auto

lemma queued_row_key:
  assumes r: "r \<in> set (fst (collectRows M ex ents))"
    and k: "r ''id'' = Some k"
    and a: "\<forall>(i, en) \<in> set ents. en ''id'' = Some i \<or>
              (en ''id'' = None \<and>
               (case ex i of None \<Rightarrow> True | Some x \<Rightarrow> compareRecords x en (getColumns M)))"
  shows "\<exists>en. (k, en) \<in> set ents \<and>
      ((\<exists>x. ex k = Some x \<and> \<not> compareRecords x en (getColumns M) \<and> r = repo_merge M [en])
       \<or> (ex k = None \<and> r = (repo_create M en)(''id'' \<mapsto> k)))"
proof -
  from r obtain i en where ie: "(i, en) \<in> set ents"
    and c: "(\<exists>x. ex i = Some x \<and> \<not> compareRecords x en (getColumns M) \<and> r = repo_merge M [en])
       \<or> (ex i = None \<and> r = (repo_create M en)(''id'' \<mapsto> i))"
    unfolding collectRows_mem by blast
  have "i = k"
  proof (cases "ex i")
    case None
    with c k show ?thesis by auto
  next
    case (Some x)
    with c have nc: "\<not> compareRecords x en (getColumns M)" and rr: "r = defaults M ++ en"
      by (auto simp: repo_merge_single)
    from a ie Some nc have "en ''id'' = Some i" by force
    with rr k show ?thesis by (simp add: map_add_def)
  qed
  with ie c show ?thesis by blast
qed

text \<open>
  After the write of the queue, every incoming record finds a stored row that compares
  equal to it, provided each record carries its key as id, or carries none and is new
  or up to date.
\<close>

lemma table_idempotent:
  assumes wf: "wf_table tbl"
    and dist: "distinct (map fst ents)"
    and kd: "keyedIn M tbl ents"
  shows "\<forall>(i, en) \<in> set ents.
           \<exists>x. fold upsert (queue M tbl ents) tbl i = Some x \<and> compareRecords x en (getColumns M)"
proof -
  let ?ex = "tbl |` set (map fst ents)"
  let ?rows = "fst (collectRows M ?ex ents)"
  have q: "queue M tbl ents = ?rows"
    by (simp add: queue_def indexBy_getMany[OF wf])
  have exi: "?ex i = tbl i" if "(i, en) \<in> set ents" for i en
    using that by (force simp: restrict_map_def)
  have ag: "en ''id'' = Some i \<or>
              (en ''id'' = None \<and>
               (case tbl i of None \<Rightarrow> True | Some x \<Rightarrow> compareRecords x en (getColumns M)))"
    if "(i, en) \<in> set ents" for i en
    using kd that by (auto simp: keyedIn_def list_all_iff)
  have a: "\<forall>(i, en) \<in> set ents. en ''id'' = Some i \<or>
              (en ''id'' = None \<and>
               (case ?ex i of None \<Rightarrow> True | Some x \<Rightarrow> compareRecords x en (getColumns M)))"
  proof -
    have "en ''id'' = Some i \<or>
              (en ''id'' = None \<and>
               (case ?ex i of None \<Rightarrow> True | Some x \<Rightarrow> compareRecords x en (getColumns M)))"
      if m: "(i, en) \<in> set ents" for i en
      using ag[OF m] exi[OF m] by simp
    then show ?thesis by blast
  qed
  have uniq: "en' = en" if "(i, en) \<in> set ents" "(i, en') \<in> set ents" for i en en'
    using dist that by (meson eq_key_imp_eq_value)
  have "\<exists>x. fold upsert ?rows tbl i = Some x \<and> compareRecords x en (getColumns M)"
    if ie: "(i, en) \<in> set ents" for i en
  proof -
    have own: "(\<exists>x. ?ex i = Some x \<and> \<not> compareRecords x en (getColumns M) \<and> r = repo_merge M [en])
       \<or> (?ex i = None \<and> r = (repo_create M en)(''id'' \<mapsto> i))"
      if "r \<in> set ?rows" "r ''id'' = Some i" for r
      using queued_row_key[OF that a] uniq[OF ie] by blast
    from ag[OF ie] have ag': "en ''id'' = None \<or> en ''id'' = Some i" by blast
    show ?thesis
    proof (cases "\<exists>r \<in> set ?rows. r ''id'' = Some i")
      case True
      then obtain r where "r \<in> set ?rows" "r ''id'' = Some i" by blast
      from fold_upsert_hit[OF this, of tbl] obtain x where
        x: "x \<in> set ?rows" "x ''id'' = Some i" "fold upsert ?rows tbl i = Some x" by blast
      from own[OF x(1,2)] ag' have "compareRecords x en (getColumns M)"
        by (auto simp: compare_merge_self compare_create_self)
      with x show ?thesis by blast
    next
      case False
      then have same: "fold upsert ?rows tbl i = tbl i"
        by (intro fold_upsert_other) auto
      show ?thesis
      proof (cases "tbl i")
        case None
        with exi[OF ie] ie have r: "(repo_create M en)(''id'' \<mapsto> i) \<in> set ?rows"
          unfolding collectRows_mem by auto
        with False show ?thesis by auto
      next
        case (Some x)
        show ?thesis
        proof (cases "compareRecords x en (getColumns M)")
          case True
          with Some same show ?thesis by simp
        next
          case nc: False
          with Some exi[OF ie] ie have r: "repo_merge M [en] \<in> set ?rows"
            unfolding collectRows_mem by auto
          from ag[OF ie] Some nc have "en ''id'' = Some i" by simp
          then have "repo_merge M [en] ''id'' = Some i"
            by (simp add: repo_merge_single map_add_def)
          with r False show ?thesis by blast
        qed
      qed
    qed
  qed
  with q show ?thesis by auto
qed

subsection \<open>One table of a batch\<close>

lemma saveTable_unregistered:
  "modelMap e t = None \<Longrightarrow> saveTable e db t ents = (db, [LogSkip t (length ents)], None)"
  by (simp add: saveTable_def)

lemma saveTable_registered:
  assumes "modelMap e t = Some M"
  shows "saveTable e db t ents =
     (let rows = fst (collectRows M (indexBy (getMany (db t) (map fst ents))) ents);
          n = snd (collectRows M (indexBy (getMany (db t) (map fst ents))) ents);
          saved = LogSaved t (length ents - n) (length ents) n in
      if rows \<noteq> [] then
        (case persist e db t rows of
           Inl err \<Rightarrow> (db, [], Some err)
         | Inr db' \<Rightarrow> (db', [Persisted t rows, Commit t (pluck rows), saved], None))
      else (db, [saved], None))"
proof -
  obtain rows n where "collectRows M (indexBy (getMany (db t) (map fst ents))) ents = (rows, n)"
    by (cases "collectRows M (indexBy (getMany (db t) (map fst ents))) ents")
  with assms show ?thesis by (simp add: saveTable_def Let_def split: sum.splits)
qed

lemma saveTable_fail:
  "saveTable e db t ents = (db', fx, Some err) \<Longrightarrow> db' = db \<and> fx = []"
  by (cases "modelMap e t")
     (auto simp: saveTable_unregistered saveTable_registered Let_def split: if_splits sum.splits)

lemma saveTable_other:
  "saveTable e db t ents = (db', fx, r) \<Longrightarrow> t' \<noteq> t \<Longrightarrow> db' t' = db t'"
  by (cases "modelMap e t")
     (auto simp: saveTable_unregistered saveTable_registered Let_def persist_other
           split: if_splits sum.splits)

lemma saveTable_unregistered_store:
  "saveTable e db t ents = (db', fx, r) \<Longrightarrow> modelMap e t' = None \<Longrightarrow> db' t' = db t'"
  by (cases "t' = t") (auto simp: saveTable_unregistered saveTable_other)

lemma saveTable_ok_store:
  assumes "saveTable e db t ents = (db', fx, None)" "modelMap e t = Some M"
  shows "db' t = fold upsert (queue M (db t) ents) (db t)"
proof (cases "queue M (db t) ents = []")
  case True
  with assms show ?thesis
    by (auto simp: saveTable_registered queue_def Let_def)
next
  case False
  with assms obtain d where "persist e db t (queue M (db t) ents) = Inr d" "db' = d"
    by (auto simp: saveTable_registered queue_def Let_def split: sum.splits)
  then show ?thesis using persist_same by blast
qed




lemma saveTable_keeps:
  assumes a: "saveTable e db t0 ents = (db', fx, r)" "db t k \<noteq> None"
  shows "db' t k \<noteq> None"
proof (cases "t = t0")
  case False
  with saveTable_other a show ?thesis by metis
next
  case True
  show ?thesis
  proof (cases "modelMap e t0")
    case None
    with a show ?thesis by (simp add: saveTable_unregistered)
  next
    case (Some M)
    show ?thesis
    proof (cases r)
      case (Some err)
      with a saveTable_fail show ?thesis by blast
    next
      case None
      from saveTable_ok_store[OF a(1)[unfolded None] Some]
      have "db' t0 = fold upsert (queue M (db t0) ents) (db t0)" by simp
      with a(2) True show ?thesis by (simp add: fold_upsert_keeps)
    qed
  qed
qed

lemma wf_saveTable:
  assumes "wf_store db" "saveTable e db t ents = (db', fx, r)"
  shows "wf_store db'"
proof (cases r)
  case (Some err)
  with assms saveTable_fail show ?thesis by blast
next
  case None
  show ?thesis
  proof (cases "modelMap e t")
    case N: None
    with assms show ?thesis by (simp add: saveTable_unregistered)
  next
    case (Some M)
    from saveTable_ok_store[OF assms(2)[unfolded None] Some]
    have "wf_table (db' t)" using assms(1) by (simp add: wf_store_def wf_fold_upsert)
    moreover have "db' t' = db t'" if "t' \<noteq> t" for t'
      using saveTable_other[OF assms(2) that] .
    ultimately show ?thesis using assms(1) unfolding wf_store_def by metis
  qed
qed

lemma saveTable_noop:
  assumes "modelMap e t = Some M" "wf_table (db t)"
    and "\<forall>(i, en) \<in> set ents. \<exists>x. db t i = Some x \<and> compareRecords x en (getColumns M)"
  shows "saveTable e db t ents = (db, [LogSaved t 0 (length ents) (length ents)], None)"
proof -
  have "\<forall>(i, en) \<in> set ents. \<exists>x. (db t |` set (map fst ents)) i = Some x
          \<and> compareRecords x en (getColumns M)"
    using assms(3) by (force simp: restrict_map_def)
  from collectRows_all_up_to_date[OF this]
  show ?thesis
    by (simp add: saveTable_registered[OF assms(1)] indexBy_getMany[OF assms(2)] Let_def)
qed

subsection \<open>The whole batch\<close>

lemma saveMany_Cons_ok:
  "saveMany e db ((t, ents) # rest) = (db1, fx1, None) \<Longrightarrow>
   \<exists>dbA fxA fxR. saveTable e db t ents = (dbA, fxA, None)
      \<and> saveMany e dbA rest = (db1, fxR, None) \<and> fx1 = fxA @ fxR"
  by (auto split: prod.splits option.splits)

lemma saveMany_append:
  "saveMany e db (xs @ ys) =
     (case saveMany e db xs of
        (db1, fx1, Some err) \<Rightarrow> (db1, fx1, Some err)
      | (db1, fx1, None) \<Rightarrow>
          (case saveMany e db1 ys of (db2, fx2, r) \<Rightarrow> (db2, fx1 @ fx2, r)))"
proof (induction xs arbitrary: db)
  case Nil
  show ?case by (simp split: prod.splits)
next
  case (Cons p xs)
  obtain t ents where p: "p = (t, ents)" by (cases p)
  show ?case unfolding p
    by (simp add: Cons.IH split: prod.splits option.splits)
qed

text \<open>
  The facts below follow the loop over the tables: each is proved for the head of the
  batch from the fact about one table, and for the rest by the induction hypothesis.
\<close>

lemma saveMany_other:
  "saveMany e db batch = (db', fx, r) \<Longrightarrow> t' \<notin> fst ` set batch \<Longrightarrow> db' t' = db t'"
proof (induction batch arbitrary: db db' fx r)
  case Nil
  then show ?case by simp
next
  case (Cons p batch)
  obtain t ents where p: "p = (t, ents)" by (cases p)
  obtain dbA fxA rA where s: "saveTable e db t ents = (dbA, fxA, rA)"
    by (cases "saveTable e db t ents")
  from Cons.prems(2) p have ne: "t' \<noteq> t" "t' \<notin> fst ` set batch" by auto
  have a: "dbA t' = db t'" using saveTable_other[OF s ne(1)] .
  show ?case
  proof (cases rA)
    case (Some err)
    with Cons.prems(1) p s a show ?thesis by simp
  next
    case None
    obtain dbB fxB rB where m: "saveMany e dbA batch = (dbB, fxB, rB)"
      by (cases "saveMany e dbA batch")
    from Cons.IH[OF m ne(2)] a Cons.prems(1) p s None m show ?thesis by simp
  qed
qed

lemma saveMany_unregistered_store:
  "saveMany e db batch = (db', fx, r) \<Longrightarrow> modelMap e t = None \<Longrightarrow> db' t = db t"
proof (induction batch arbitrary: db db' fx r)
  case Nil
  then show ?case by simp
next
  case (Cons p batch)
  obtain t0 ents0 where p: "p = (t0, ents0)" by (cases p)
  obtain dbA fxA rA where s: "saveTable e db t0 ents0 = (dbA, fxA, rA)"
    by (cases "saveTable e db t0 ents0")
  have a: "dbA t = db t" using saveTable_unregistered_store[OF s Cons.prems(2)] .
  show ?case
  proof (cases rA)
    case (Some err)
    with Cons.prems p s a show ?thesis by simp
  next
    case None
    obtain dbB fxB rB where m: "saveMany e dbA batch = (dbB, fxB, rB)"
      by (cases "saveMany e dbA batch")
    from Cons.IH[OF m Cons.prems(2)] a Cons.prems(1) p s None m show ?thesis by simp
  qed
qed

lemma saveMany_keeps:
  "saveMany e db batch = (db', fx, r) \<Longrightarrow> db t k \<noteq> None \<Longrightarrow> db' t k \<noteq> None"
proof (induction batch arbitrary: db db' fx r)
  case Nil
  then show ?case by simp
next
  case (Cons p batch)
  obtain t0 ents where p: "p = (t0, ents)" by (cases p)
  obtain dbA fxA rA where s: "saveTable e db t0 ents = (dbA, fxA, rA)"
    by (cases "saveTable e db t0 ents")
  have k: "dbA t k \<noteq> None" using saveTable_keeps[OF s Cons.prems(2)] .
  show ?case
  proof (cases rA)
    case (Some err)
    with Cons.prems(1) p s k show ?thesis by simp
  next
    case None
    obtain dbB fxB rB where m: "saveMany e dbA batch = (dbB, fxB, rB)"
      by (cases "saveMany e dbA batch")
    from Cons.IH[OF m k] Cons.prems(1) p s None m show ?thesis by simp
  qed
qed

lemma wf_saveMany:
  "wf_store db \<Longrightarrow> saveMany e db batch = (db', fx, r) \<Longrightarrow> wf_store db'"
proof (induction batch arbitrary: db db' fx r)
  case Nil
  then show ?case by simp
next
  case (Cons p batch)
  obtain t ents where p: "p = (t, ents)" by (cases p)
  obtain dbA fxA rA where s: "saveTable e db t ents = (dbA, fxA, rA)"
    by (cases "saveTable e db t ents")
  have wA: "wf_store dbA" using wf_saveTable[OF Cons.prems(1) s] .
  show ?case
  proof (cases rA)
    case (Some err)
    with Cons.prems(2) p s wA show ?thesis by simp
  next
    case None
    obtain dbB fxB rB where m: "saveMany e dbA batch = (dbB, fxB, rB)"
      by (cases "saveMany e dbA batch")
    from Cons.IH[OF wA m] Cons.prems(2) p s None m show ?thesis by simp
  qed
qed


lemma keyed_other:
  assumes "keyed e db batch" and "\<forall>t \<in> fst ` set batch. db' t = db t"
  shows "keyed e db' batch"
proof -
  have "case modelMap e t of None \<Rightarrow> True | Some M \<Rightarrow> keyedIn M (db' t) ents"
    if m: "(t, ents) \<in> set batch" for t ents
  proof -
    from m assms(2) have "db' t = db t" by force
    moreover from m assms(1)
    have "case modelMap e t of None \<Rightarrow> True | Some M \<Rightarrow> keyedIn M (db t) ents"
      by (auto simp: keyed_def list_all_iff)
    ultimately show ?thesis by (cases "modelMap e t") simp_all
  qed
  then show ?thesis by (auto simp: keyed_def list_all_iff)
qed

lemma no_write_in_upToDateLog:
  "filter isWrite (map (upToDateLog e) batch) = []"
  by (induction batch) (auto simp: upToDateLog_def split: option.splits)

subsection \<open>Deletion\<close>

lemma deleteTable_writable:
  assumes "t \<notin> unwritable e"
  shows "deleteTable e db t ids =
     (case modelMap e t of
        None \<Rightarrow> (db, [LogSkipDelete t (length ids)], None)
      | Some M \<Rightarrow> (db(t := (\<lambda>k. if k \<in> set ids then None else db t k)), [Removed t ids], None))"
proof -
  have "set (map (\<lambda>r. r ''id'') (map (\<lambda>eid. [''id'' \<mapsto> eid]) ids)) = Some ` set ids"
    by (induction ids) auto
  then have "(Some k \<in> set (map (\<lambda>r. r ''id'') (map (\<lambda>eid. [''id'' \<mapsto> eid]) ids)))
               = (k \<in> set ids)" for k
    by (simp only: inj_image_mem_iff[OF inj_Some])
  with assms show ?thesis
    by (simp only: deleteTable_def remove_def Let_def if_False split: option.splits) simp
qed

lemma deleteAll_writable:
  "writableSpec e spec \<Longrightarrow>
   deleteAllEntities e db spec =
     (\<lambda>t k. if deleted e spec t k then None else db t k, map (deleteLog e) spec, None)"
proof (induction spec arbitrary: db)
  case Nil
  show ?case by (simp add: deleted_def)
next
  case (Cons p spec)
  obtain t ids where p: "p = (t, ids)" by (cases p)
  from Cons.prems p have w: "t \<notin> unwritable e" "writableSpec e spec"
    by (auto simp: writableSpec_def)
  show ?case
  proof (cases "modelMap e t")
    case None
    have "(\<lambda>t' k. if deleted e ((t, ids) # spec) t' k then None else db t' k)
            = (\<lambda>t' k. if deleted e spec t' k then None else db t' k)"
      using None by (auto simp: deleted_def fun_eq_iff)
    with None show ?thesis unfolding p
      by (simp add: deleteTable_writable[OF w(1)] Cons.IH[OF w(2)] deleteLog_def)
  next
    case (Some M)
    let ?d = "db(t := (\<lambda>k. if k \<in> set ids then None else db t k))"
    have "(\<lambda>t' k. if deleted e ((t, ids) # spec) t' k then None else db t' k)
            = (\<lambda>t' k. if deleted e spec t' k then None else ?d t' k)"
      using Some by (auto simp: deleted_def fun_eq_iff)
    with Some show ?thesis unfolding p
      by (simp add: deleteTable_writable[OF w(1)] Cons.IH[OF w(2)] deleteLog_def)
  qed
qed

subsection \<open>Running the methods on the sample registry\<close>

lemmas run_defs = saveTable_def Let_def getMany_def indexBy_def keyOf_def
  compareRecords_def getColumns_def repo_create_def repo_merge_def persist_def upsert_def
  pluck_def queue_def env0_def envGamesDown_def gamesModel_def usersModel_def emptyStore_def

lemma wf_emptyStore: "wf_store emptyStore"
  by (simp add: wf_store_def wf_table_def emptyStore_def)

lemma wf_usersStore: "wf_store usersStore"
  by (auto simp: wf_store_def wf_table_def usersStore_def emptyStore_def split: if_splits)

lemma wf_mergeStore: "wf_store mergeStore"
  by (auto simp: wf_store_def wf_table_def mergeStore_def emptyStore_def split: if_splits)

section \<open>The claims\<close>

subsection \<open>C1: applying a batch twice\<close>

text \<open>
  C1. The claim is that applying a batch a second time, to the store the first
  application produced, changes nothing and makes no store write. The source breaks
  it on a partial record without an \<open>id\<close> field that updates a stored record: the
  merge branch queues \<open>repo.merge(entity)\<close> and does not set the \<open>id\<close> of the row, as
  the create branch does. With \<open>{id: 1, a: "x", b: "y"}\<close> stored for \<open>games\<close>, the
  batch \<open>{games: {"1": {a: "z"}}}\<close> finds the stored record, compares \<open>a\<close> and queues
  the row \<open>{a: "z"}\<close>; the write is accepted and the record stored under id 1 stays
  as it was. The second application finds the same stored record, queues the same
  row, and writes and commits again.
\<close>

theorem keyless_update_is_written_again:
  "snd (snd (saveMany env0 mergeStore mergeBatchNoId)) = None
   \<and> snd (snd (saveMany env0 (fst (saveMany env0 mergeStore mergeBatchNoId)) mergeBatchNoId))
       = None
   \<and> fst (snd (saveMany env0 (fst (saveMany env0 mergeStore mergeBatchNoId)) mergeBatchNoId))
       = [Persisted ''games'' [[''a'' \<mapsto> ''z'']], Commit ''games'' [None],
          LogSaved ''games'' 1 1 0]"
  by (simp add: run_defs mergeStore_def mergeBatchNoId_def)

text \<open>
  Where the merge branch is given the id, the second application does write nothing.
  For every batch in which each record of a registered table either carries, as its
  \<open>id\<close> field, the key it is filed under, or has no \<open>id\<close> field and is new or up to
  date, on a store that keeps each row under its own id: if the first application of
  the batch succeeds, the second application to the store it produced succeeds,
  leaves that store as it is, and performs no store write and no commit; each
  registered table logs \<open>saved 0/n, skipped n up-to-date\<close> and each unregistered table
  logs its skip.
\<close>

theorem second_application_writes_nothing:
  assumes "wf_store db" and "distinctKeys batch" and "keyed e db batch"
    and "saveMany e db batch = (db1, fx1, None)"
  shows "saveMany e db1 batch = (db1, map (upToDateLog e) batch, None)
         \<and> filter isWrite (map (upToDateLog e) batch) = []"
proof -
  have "saveMany e db1 batch = (db1, map (upToDateLog e) batch, None)"
    using assms
  proof (induction batch arbitrary: db fx1)
    case Nil
    then show ?case by simp
  next
    case (Cons p batch)
    obtain t ents where p: "p = (t, ents)" by (cases p)
    from Cons.prems(4) p obtain dbA fxA fxR where
      s: "saveTable e db t ents = (dbA, fxA, None)" and
      m: "saveMany e dbA batch = (db1, fxR, None)"
      using saveMany_Cons_ok by blast
    from Cons.prems(2) p have dk: "distinctKeys batch" "t \<notin> fst ` set batch"
      "distinct (map fst ents)"
      by (auto simp: distinctKeys_def)
    from Cons.prems(3) p have kd: "keyed e db batch"
      "case modelMap e t of None \<Rightarrow> True | Some M \<Rightarrow> keyedIn M (db t) ents"
      by (auto simp: keyed_def)
    have "\<forall>t' \<in> fst ` set batch. dbA t' = db t'"
      using saveTable_other[OF s] dk(2) by metis
    with kd(1) have kA: "keyed e dbA batch" by (rule keyed_other)
    have wA: "wf_store dbA" using wf_saveTable[OF Cons.prems(1) s] .
    have rest: "saveMany e db1 batch = (db1, map (upToDateLog e) batch, None)"
      using Cons.IH[OF wA dk(1) kA m] .
    have same: "db1 t = dbA t" using saveMany_other[OF m dk(2)] .
    have w1: "wf_store db1" using wf_saveMany[OF wA m] .
    have step: "saveTable e db1 t ents = (db1, [upToDateLog e (t, ents)], None)"
    proof (cases "modelMap e t")
      case None
      then show ?thesis by (simp add: saveTable_unregistered upToDateLog_def)
    next
      case (Some M)
      from kd(2) Some have ki: "keyedIn M (db t) ents" by simp
      from Cons.prems(1) have wt: "wf_table (db t)" by (simp add: wf_store_def)
      from saveTable_ok_store[OF s Some] have
        st: "dbA t = fold upsert (queue M (db t) ents) (db t)" .
      from table_idempotent[OF wt dk(3) ki] st same
      have "\<forall>(i, en) \<in> set ents. \<exists>x. db1 t i = Some x \<and> compareRecords x en (getColumns M)"
        by simp
      moreover from w1 have "wf_table (db1 t)" by (simp add: wf_store_def)
      ultimately show ?thesis
        using saveTable_noop[OF Some] by (simp add: upToDateLog_def Some)
    qed
    show ?case unfolding p using step rest by simp
  qed
  then show ?thesis by (simp add: no_write_in_upToDateLog)
qed

text \<open>
  On a store that holds game 1: the batch updates game 1 with a record that carries
  its id, creates game 2 from a record that carries none, and names a table that is
  not registered.
\<close>

theorem second_application_witness:
  "wf_store mergeStore \<and> distinctKeys updBatch \<and> keyed env0 mergeStore updBatch
   \<and> snd (snd (saveMany env0 mergeStore updBatch)) = None
   \<and> filter isWrite (fst (snd (saveMany env0 mergeStore updBatch))) \<noteq> []
   \<and> saveMany env0 (fst (saveMany env0 mergeStore updBatch)) updBatch
       = (fst (saveMany env0 mergeStore updBatch),
          [LogSaved ''games'' 0 2 2, LogSkip ''themes'' 1], None)"
proof -
  have d: "distinctKeys updBatch" by (simp add: distinctKeys_def updBatch_def updGames_def)
  have k: "keyed env0 mergeStore updBatch"
    by (simp add: keyed_def keyedIn_def updBatch_def updGames_def env0_def mergeStore_def
                  emptyStore_def)
  have n: "snd (snd (saveMany env0 mergeStore updBatch)) = None"
    by (simp add: run_defs mergeStore_def updBatch_def updGames_def)
  have f: "filter isWrite (fst (snd (saveMany env0 mergeStore updBatch))) \<noteq> []"
    by (simp add: run_defs mergeStore_def updBatch_def updGames_def)
  from n have r: "saveMany env0 mergeStore updBatch =
      (fst (saveMany env0 mergeStore updBatch), fst (snd (saveMany env0 mergeStore updBatch)), None)"
    by (metis prod.collapse)
  have l: "map (upToDateLog env0) updBatch = [LogSaved ''games'' 0 2 2, LogSkip ''themes'' 1]"
    by (simp add: upToDateLog_def updBatch_def updGames_def env0_def)
  from second_application_writes_nothing[OF wf_mergeStore d k r] l
  have "saveMany env0 (fst (saveMany env0 mergeStore updBatch)) updBatch
       = (fst (saveMany env0 mergeStore updBatch),
          [LogSaved ''games'' 0 2 2, LogSkip ''themes'' 1], None)"
    by simp
  with wf_mergeStore d k n f show ?thesis by blast
qed

subsection \<open>C2: the record written for a stored record that differs\<close>

text \<open>
  C2. The claim is that the record written for a stored record that is not up to date
  is the stored record with the incoming fields laid over it. The source queues
  \<open>repo.merge(entity)\<close>: the stored entity it has just compared is not an argument of
  the call, and the branch does not set the \<open>id\<close> of the row, as the create branch
  next to it does. For the partial record \<open>{a: "z"}\<close> under key 1, with
  \<open>{id: 1, a: "x", b: "y"}\<close> stored, the queued row is \<open>{a: "z"}\<close>: it has no id, the
  write of it is accepted, the commit action carries \<open>undefined\<close>, and the record
  stored under id 1 still has \<open>a = "x"\<close>, where the claim has \<open>{id: 1, a: "z", b: "y"}\<close>.
  On the empty store the same record takes the create branch and is queued with id 1.
\<close>

theorem merge_branch_queues_row_without_id:
  "queue gamesModel (mergeStore ''games'') [(''1'', [''a'' \<mapsto> ''z''])] = [[''a'' \<mapsto> ''z'']]
   \<and> queue gamesModel (emptyStore ''games'') [(''1'', [''a'' \<mapsto> ''z''])]
       = [[''a'' \<mapsto> ''z'', ''id'' \<mapsto> ''1'']]
   \<and> snd (snd (saveMany env0 mergeStore mergeBatchNoId)) = None
   \<and> fst (snd (saveMany env0 mergeStore mergeBatchNoId))
       = [Persisted ''games'' [[''a'' \<mapsto> ''z'']], Commit ''games'' [None],
          LogSaved ''games'' 1 1 0]
   \<and> map_option (\<lambda>r. (r ''id'', r ''a'', r ''b'')) (mergeStore ''games'' ''1'')
       = Some (Some ''1'', Some ''x'', Some ''y'')
   \<and> map_option (\<lambda>r. (r ''id'', r ''a'', r ''b''))
        (fst (saveMany env0 mergeStore mergeBatchNoId) ''games'' ''1'')
       = Some (Some ''1'', Some ''x'', Some ''y'')"
  by (simp add: run_defs mergeStore_def mergeBatchNoId_def)

subsection \<open>C3: one commit action per table with a non-empty queue\<close>




subsection \<open>C4: a table without a registered model\<close>

text \<open>
  C4. A table of the batch that has no registered model does not make the batch fail:
  wherever it stands in the batch, the tables before it are processed, the table
  itself contributes one log entry that counts the records it skips and nothing else,
  and the tables after it are processed from the same store; the outcome is that of
  the other tables. No batch ever writes to a table that is not registered.
\<close>

theorem unknown_table_is_skipped:
  assumes "modelMap e t = None"
  shows "saveMany e db (pre @ (t, ents) # post) =
           (case saveMany e db pre of
              (db1, fx1, Some err) \<Rightarrow> (db1, fx1, Some err)
            | (db1, fx1, None) \<Rightarrow>
                (case saveMany e db1 post of
                   (db2, fx2, r) \<Rightarrow> (db2, fx1 @ LogSkip t (length ents) # fx2, r)))
         \<and> fst (saveMany e db batch) t = db t"
proof
  show "saveMany e db (pre @ (t, ents) # post) =
           (case saveMany e db pre of
              (db1, fx1, Some err) \<Rightarrow> (db1, fx1, Some err)
            | (db1, fx1, None) \<Rightarrow>
                (case saveMany e db1 post of
                   (db2, fx2, r) \<Rightarrow> (db2, fx1 @ LogSkip t (length ents) # fx2, r)))"
    using assms
    by (simp add: saveMany_append saveTable_unregistered split: prod.splits option.splits)
next
  obtain db' fx r where "saveMany e db batch = (db', fx, r)"
    by (cases "saveMany e db batch")
  with saveMany_unregistered_store[OF this assms]
  show "fst (saveMany e db batch) t = db t" by simp
qed

text \<open>
  On the empty store: \<open>games\<close> is written, \<open>themes\<close> is skipped after it and stays
  empty, and the batch succeeds.
\<close>

theorem unknown_table_witness:
  "modelMap env0 ''themes'' = None
   \<and> snd (snd (saveMany env0 emptyStore [(''games'', okGames)])) = None
   \<and> saveMany env0 emptyStore okBatch
       = (fst (saveMany env0 emptyStore [(''games'', okGames)]),
          fst (snd (saveMany env0 emptyStore [(''games'', okGames)])) @ [LogSkip ''themes'' 1],
          None)
   \<and> fst (saveMany env0 emptyStore okBatch) ''themes'' = emptyStore ''themes''"
proof -
  have m: "modelMap env0 ''themes'' = None" by (simp add: env0_def)
  have n: "snd (snd (saveMany env0 emptyStore [(''games'', okGames)])) = None"
    by (simp add: run_defs okGames_def)
  then have r: "saveMany env0 emptyStore [(''games'', okGames)]
     = (fst (saveMany env0 emptyStore [(''games'', okGames)]),
        fst (snd (saveMany env0 emptyStore [(''games'', okGames)])), None)"
    by (metis prod.collapse)
  have b: "[(''games'', okGames)] @ (''themes'', [(''9'', [''name'' \<mapsto> ''dark''])]) # [] = okBatch"
    by (simp add: okBatch_def)
  note T = unknown_table_is_skipped[OF m, of emptyStore "[(''games'', okGames)]"
      "[(''9'', [''name'' \<mapsto> ''dark''])]" "[]" okBatch, unfolded b]
  from T have A: "saveMany env0 emptyStore okBatch =
           (case saveMany env0 emptyStore [(''games'', okGames)] of
              (db1, fx1, Some err) \<Rightarrow> (db1, fx1, Some err)
            | (db1, fx1, None) \<Rightarrow>
                (case saveMany env0 db1 [] of
                   (db2, fx2, r) \<Rightarrow>
                     (db2, fx1 @ LogSkip ''themes'' (length [(''9'', [''name'' \<mapsto> ''dark''])]) # fx2, r)))"
    by (rule conjunct1)
  from T have B: "fst (saveMany env0 emptyStore okBatch) ''themes'' = emptyStore ''themes''"
    by (rule conjunct2)
  have "saveMany env0 emptyStore okBatch
       = (fst (saveMany env0 emptyStore [(''games'', okGames)]),
          fst (snd (saveMany env0 emptyStore [(''games'', okGames)])) @ [LogSkip ''themes'' 1],
          None)"
    by (subst A, subst r) simp
  with m n B show ?thesis by blast
qed

subsection \<open>C5: a store write that fails\<close>

text \<open>
  C5, as stated, fails: \<open>saveMany\<close> awaits \<open>repo.persist\<close> inside the loop over the
  tables and catches nothing, so a rejected write throws out of the method. With
  \<open>games\<close> unwritable, the batch of \<open>games\<close> and \<open>users\<close> ends with \<open>IOFailure\<close>, no
  effect at all, and no row for user 7, which the same batch without \<open>games\<close> would
  have stored.
\<close>

theorem failure_aborts_siblings:
  "snd (snd (saveMany envGamesDown emptyStore twoTables)) = Some IOFailure
   \<and> fst (snd (saveMany envGamesDown emptyStore twoTables)) = []
   \<and> fst (saveMany envGamesDown emptyStore twoTables) ''users'' ''7'' = None
   \<and> fst (saveMany envGamesDown emptyStore usersOnly) ''users'' ''7'' \<noteq> None"
  by (simp add: run_defs twoTables_def usersOnly_def oneGame_def)

text \<open>
  C5, amended. A store write that fails on one table ends the batch at that table:
  the error is thrown to the caller, the store and the effects are those of the tables
  processed before it (they remain committed, with their commit actions), the failing
  table is left as it was and has no commit action, and the tables after it are not
  processed. The method returns no per-table outcomes.
\<close>

theorem write_failure_aborts_batch:
  assumes "saveMany e db pre = (db1, fx1, None)"
    and "snd (snd (saveTable e db1 t ents)) = Some err"
  shows "saveMany e db (pre @ (t, ents) # post) = (db1, fx1, Some err)"
proof -
  obtain dbx fxx where "saveTable e db1 t ents = (dbx, fxx, Some err)"
    using assms(2) by (cases "saveTable e db1 t ents") auto
  moreover from this saveTable_fail have "dbx = db1" "fxx = []" by blast+
  ultimately show ?thesis using assms(1) by (simp add: saveMany_append)
qed

text \<open>
  With \<open>games\<close> unwritable: \<open>users\<close> is written first and stays written, \<open>games\<close>
  fails, and the table after it is not reached.
\<close>

theorem write_failure_witness:
  "snd (snd (saveMany envGamesDown emptyStore usersOnly)) = None
   \<and> snd (snd (saveTable envGamesDown (fst (saveMany envGamesDown emptyStore usersOnly))
        ''games'' oneGame)) = Some IOFailure
   \<and> saveMany envGamesDown emptyStore
        (usersOnly @ (''games'', oneGame) # [(''users'', [(''8'', [''id'' \<mapsto> ''8''])])])
     = (fst (saveMany envGamesDown emptyStore usersOnly),
        fst (snd (saveMany envGamesDown emptyStore usersOnly)), Some IOFailure)"
proof -
  have n: "snd (snd (saveMany envGamesDown emptyStore usersOnly)) = None"
    by (simp add: run_defs usersOnly_def)
  then have p: "saveMany envGamesDown emptyStore usersOnly
     = (fst (saveMany envGamesDown emptyStore usersOnly),
        fst (snd (saveMany envGamesDown emptyStore usersOnly)), None)"
    by (metis prod.collapse)
  have f: "snd (snd (saveTable envGamesDown (fst (saveMany envGamesDown emptyStore usersOnly))
        ''games'' oneGame)) = Some IOFailure"
    by (simp add: run_defs usersOnly_def oneGame_def)
  from write_failure_aborts_batch[OF p f] n f show ?thesis by blast
qed

subsection \<open>C6: the commit action follows the write\<close>



subsection \<open>C7: an id that is not stored\<close>

text \<open>
  C7. An incoming id with no stored counterpart is never taken as up to date: whatever
  the comparator would say, the queue holds a new record built from the incoming
  record, whose \<open>id\<close> is the incoming id, whose other fields are the incoming ones,
  and whose unset columns have the schema's default. When the table is written with
  success, that queue is what was handed to the store, and the id is stored.
\<close>

theorem new_id_is_created:
  assumes "modelMap e t = Some M" and "wf_store db"
    and "(i, en) \<in> set ents" and "db t i = None"
  shows "(repo_create M en)(''id'' \<mapsto> i) \<in> set (queue M (db t) ents)
       \<and> ((repo_create M en)(''id'' \<mapsto> i)) ''id'' = Some i
       \<and> (\<forall>c. c \<noteq> ''id'' \<longrightarrow>
            ((repo_create M en)(''id'' \<mapsto> i)) c
              = (case en c of Some v \<Rightarrow> Some v | None \<Rightarrow> defaults M c))
       \<and> (\<forall>db' fx. saveTable e db t ents = (db', fx, None) \<longrightarrow>
            Persisted t (queue M (db t) ents) \<in> set fx \<and> db' t i \<noteq> None)"
proof -
  let ?r = "(repo_create M en)(''id'' \<mapsto> i)"
  from assms(2) have wt: "wf_table (db t)" by (simp add: wf_store_def)
  have ex: "(db t |` set (map fst ents)) i = None" using assms(4) by (simp add: restrict_map_def)
  have q: "?r \<in> set (queue M (db t) ents)"
    unfolding queue_def indexBy_getMany[OF wt] collectRows_mem using assms(3) ex by blast
  have f: "\<forall>c. c \<noteq> ''id'' \<longrightarrow> ?r c = (case en c of Some v \<Rightarrow> Some v | None \<Rightarrow> defaults M c)"
    by (auto simp: repo_create_def map_add_def split: option.splits)
  have p: "Persisted t (queue M (db t) ents) \<in> set fx \<and> db' t i \<noteq> None"
    if s: "saveTable e db t ents = (db', fx, None)" for db' fx
  proof -
    from q have ne: "queue M (db t) ents \<noteq> []" by auto
    with s assms(1) have "Persisted t (queue M (db t) ents) \<in> set fx"
      by (auto simp: saveTable_registered Let_def queue_def split: sum.splits)
    moreover from saveTable_ok_store[OF s assms(1)]
    have "db' t = fold upsert (queue M (db t) ents) (db t)" by simp
    with fold_upsert_hit[OF q, of i "db t"] have "db' t i \<noteq> None" by auto
    ultimately show ?thesis by simp
  qed
  from q f p show ?thesis by simp
qed

text \<open>
  A new user that sets only \<open>name\<close>: the queued row has the key as its id and the
  default language.
\<close>

theorem new_id_witness:
  "modelMap env0 ''users'' = Some usersModel \<and> wf_store usersStore
   \<and> usersStore ''users'' ''7'' = None
   \<and> queue usersModel (usersStore ''users'') newUser
       = [[''lang'' \<mapsto> ''en'', ''name'' \<mapsto> ''n'', ''id'' \<mapsto> ''7'']]
   \<and> snd (snd (saveTable env0 usersStore ''users'' newUser)) = None
   \<and> fst (saveTable env0 usersStore ''users'' newUser) ''users'' ''7'' \<noteq> None"
proof -
  have m: "modelMap env0 ''users'' = Some usersModel" by (simp add: env0_def)
  have n: "usersStore ''users'' ''7'' = None" by (simp add: usersStore_def emptyStore_def)
  have i: "(''7'', [''name'' \<mapsto> ''n'']) \<in> set newUser" by (simp add: newUser_def)
  have q: "queue usersModel (usersStore ''users'') newUser
       = [[''lang'' \<mapsto> ''en'', ''name'' \<mapsto> ''n'', ''id'' \<mapsto> ''7'']]"
    by (simp add: run_defs usersStore_def newUser_def)
  have s: "snd (snd (saveTable env0 usersStore ''users'' newUser)) = None"
    by (simp add: run_defs usersStore_def newUser_def)
  then have r: "saveTable env0 usersStore ''users'' newUser
     = (fst (saveTable env0 usersStore ''users'' newUser),
        fst (snd (saveTable env0 usersStore ''users'' newUser)), None)"
    by (metis prod.collapse)
  from new_id_is_created[OF m wf_usersStore i n] r
  have "fst (saveTable env0 usersStore ''users'' newUser) ''users'' ''7'' \<noteq> None"
    by blast
  with m wf_usersStore n q s show ?thesis by blast
qed

subsection \<open>C8: deletion\<close>

text \<open>
  C8. For every deletion spec whose tables can be written: \<open>deleteAllEntities\<close>
  succeeds; in each registered table of the spec exactly the listed ids are gone, and
  every other row of the store is as before; applying the same spec again succeeds and
  leaves the store as the first application left it; and when none of the listed ids
  is stored, the store does not change at all.
\<close>

theorem delete_is_idempotent:
  assumes "writableSpec e spec"
  shows "deleteAllEntities e db spec =
           (\<lambda>t k. if deleted e spec t k then None else db t k, map (deleteLog e) spec, None)
       \<and> deleteAllEntities e (fst (deleteAllEntities e db spec)) spec =
           (fst (deleteAllEntities e db spec), map (deleteLog e) spec, None)
       \<and> ((\<forall>t k. deleted e spec t k \<longrightarrow> db t k = None) \<longrightarrow>
            fst (deleteAllEntities e db spec) = db)"
proof -
  let ?d = "\<lambda>t k. if deleted e spec t k then None else db t k"
  have a: "deleteAllEntities e db spec = (?d, map (deleteLog e) spec, None)"
    using deleteAll_writable[OF assms] .
  have "(\<lambda>t k. if deleted e spec t k then None else ?d t k) = ?d"
    by (auto simp: fun_eq_iff)
  then have b: "deleteAllEntities e ?d spec = (?d, map (deleteLog e) spec, None)"
    using deleteAll_writable[OF assms, of ?d] by simp
  have c: "?d = db" if "\<forall>t k. deleted e spec t k \<longrightarrow> db t k = None"
    using that by (auto simp: fun_eq_iff)
  from a b c show ?thesis by simp
qed

text \<open>
  The example of the spec: deleting user 5 removes it and leaves user 6; deleting it
  again succeeds on the store without user 5.
\<close>

theorem delete_witness:
  "writableSpec env0 dropFive
   \<and> snd (snd (deleteAllEntities env0 usersStore dropFive)) = None
   \<and> usersStore ''users'' ''5'' \<noteq> None
   \<and> fst (deleteAllEntities env0 usersStore dropFive) ''users'' ''5'' = None
   \<and> fst (deleteAllEntities env0 usersStore dropFive) ''users'' ''6''
        = usersStore ''users'' ''6''
   \<and> deleteAllEntities env0 (fst (deleteAllEntities env0 usersStore dropFive)) dropFive
       = (fst (deleteAllEntities env0 usersStore dropFive), [Removed ''users'' [''5'']], None)"
proof -
  have w: "writableSpec env0 dropFive"
    by (simp add: writableSpec_def env0_def dropFive_def)
  have l: "map (deleteLog env0) dropFive = [Removed ''users'' [''5'']]"
    by (simp add: deleteLog_def env0_def dropFive_def)
  have d5: "deleted env0 dropFive ''users'' ''5''"
    by (simp add: deleted_def env0_def dropFive_def)
  have d6: "\<not> deleted env0 dropFive ''users'' ''6''"
    by (simp add: deleted_def env0_def dropFive_def)
  have s: "usersStore ''users'' ''5'' \<noteq> None" by (simp add: usersStore_def)
  note T = delete_is_idempotent[OF w, of usersStore, unfolded l]
  from T have A: "deleteAllEntities env0 usersStore dropFive =
      (\<lambda>t k. if deleted env0 dropFive t k then None else usersStore t k,
       [Removed ''users'' [''5'']], None)"
    by (rule conjunct1)
  from T have B: "deleteAllEntities env0 (fst (deleteAllEntities env0 usersStore dropFive)) dropFive
       = (fst (deleteAllEntities env0 usersStore dropFive), [Removed ''users'' [''5'']], None)"
    by (rule conjunct2[THEN conjunct1])
  have n: "snd (snd (deleteAllEntities env0 usersStore dropFive)) = None"
    unfolding A by simp
  have c5: "fst (deleteAllEntities env0 usersStore dropFive) ''users'' ''5'' = None"
    unfolding A using d5 by simp
  have c6: "fst (deleteAllEntities env0 usersStore dropFive) ''users'' ''6''
        = usersStore ''users'' ''6''"
    unfolding A using d6 by simp
  from w n s c5 c6 B show ?thesis by blast
qed

subsection \<open>C9: closing twice\<close>

text \<open>
  C9, as stated, fails: \<open>close\<close> has no test of its own, and its comment says that no
  method may be called after it. The second call awaits \<open>this.conn.close()\<close> again, on
  the connection the first call closed; with a connection that rejects \<open>close\<close> when
  it is not connected, the second call throws.
\<close>

theorem second_close_fails:
  "snd (snd (DB_close typeorm_close openHandle)) = None
   \<and> snd (snd (DB_close typeorm_close (fst (DB_close typeorm_close openHandle))))
       = Some CannotCloseNotConnected"
  by (simp add: DB_close_def typeorm_close_def openHandle_def)

text \<open>
  C9, amended. A successful \<open>close\<close> clears \<open>dbPath\<close>. A second \<open>close\<close> is not a
  no-op of the store: it logs, and calls the connection's \<open>close\<close> again on the
  connection left by the first call; it succeeds exactly when that call does, and
  otherwise throws the connection's error and leaves the handle as it was.
\<close>

theorem close_is_not_guarded:
  assumes "DB_close cc h = (h1, lg, None)"
  shows "dbPath h1 = None
       \<and> DB_close cc h1 =
           (case cc (conn h1) of
              Inl err \<Rightarrow> (h1, [Closing None], Some err)
            | Inr c \<Rightarrow> (h1\<lparr>conn := c\<rparr>, [Closing None, Closed], None))"
proof -
  from assms have "dbPath h1 = None"
    by (auto simp: DB_close_def split: sum.splits)
  then show ?thesis
    by (cases h1) (auto simp: DB_close_def split: sum.splits)
qed

text \<open>The two calls on an open handle, with the connection that rejects the second.\<close>

theorem close_witness:
  "DB_close typeorm_close openHandle
     = (\<lparr>conn = NotConnected, dbPath = None\<rparr>, [Closing (Some ''itch.db''), Closed], None)
   \<and> DB_close typeorm_close \<lparr>conn = NotConnected, dbPath = None\<rparr>
     = (\<lparr>conn = NotConnected, dbPath = None\<rparr>, [Closing None], Some CannotCloseNotConnected)"
proof -
  have c: "DB_close typeorm_close openHandle
     = (\<lparr>conn = NotConnected, dbPath = None\<rparr>, [Closing (Some ''itch.db''), Closed], None)"
    by (simp add: DB_close_def typeorm_close_def openHandle_def)
  from close_is_not_guarded[OF c] c show ?thesis by (simp add: typeorm_close_def)
qed

subsection \<open>C10: \<open>saveOne\<close> and the singleton batch\<close>

text \<open>
  C10. For every table name, id and partial record, \<open>saveOne\<close> is \<open>saveMany\<close> on the
  batch that holds that one table with that one record: both end in the same store,
  perform the same effects, hence dispatch the same commit actions, and throw alike.
\<close>

theorem saveOne_is_singleton_saveMany:
  "saveOne e db t i r = saveMany e db [(t, [(i, r)])]
   \<and> fst (saveOne e db t i r) = fst (saveMany e db [(t, [(i, r)])])
   \<and> commitsFor t (fst (snd (saveOne e db t i r)))
       = commitsFor t (fst (snd (saveMany e db [(t, [(i, r)])])))"
  by (simp add: saveOne_def)

end
